theory Spec2Isabelle
  imports Complex_Main "HOL-Library.Stream"
begin

section \<open>Multi-armed bandit simulator: model of \<^verbatim>\<open>dynamic_pricing_gui.py\<close>\<close>

text \<open>
  The simulation core of the program is the class \<^verbatim>\<open>AdBandit\<close>, the three functions
  \<^verbatim>\<open>epsilon_greedy\<close>, \<^verbatim>\<open>ucb1\<close>, \<^verbatim>\<open>thompson_sampling\<close> and the accounting in
  \<^verbatim>\<open>BanditApp.run_simulation\<close>. They are embedded here as HOL functions.

  Conventions of the embedding:
  \<^item> A Python exception is a value of \<open>py_error\<close>; a computation that can raise returns
    \<open>py_error + 'a\<close> with \<open>Inl\<close> for the exception. Nothing in the program catches an
    exception, so the first one ends the run.
  \<^item> numpy's \<^verbatim>\<open>float64\<close> arrays are lists of \<open>real\<close>: arithmetic is exact.
  \<^item> The global generator \<^verbatim>\<open>np.random\<close> is an explicit state \<open>rng\<close> that is passed
    through every call and returned updated.
\<close>

subsection \<open>Exceptions and numpy arrays\<close>

datatype py_error = ValueError | IndexError

text \<open>
  \<^verbatim>\<open>a[i]\<close> and \<^verbatim>\<open>a[i] = v\<close> on a one-dimensional array with an integer index:
  an index in \<open>[-n, 0)\<close> counts from the end, an index outside \<open>[-n, n)\<close> raises
  \<^verbatim>\<open>IndexError\<close>.
\<close>

definition getitem :: "'a list \<Rightarrow> int \<Rightarrow> py_error + 'a" where
  "getitem xs i =
     (let n = int (length xs); j = (if i < 0 then i + n else i)
      in if 0 \<le> j \<and> j < n then Inr (xs ! nat j) else Inl IndexError)"

definition setitem :: "'a list \<Rightarrow> int \<Rightarrow> 'a \<Rightarrow> py_error + 'a list" where
  "setitem xs i v =
     (let n = int (length xs); j = (if i < 0 then i + n else i)
      in if 0 \<le> j \<and> j < n then Inr (xs[nat j := v]) else Inl IndexError)"

text \<open>
  Sequencing of computations that can raise: \<open>and_then m f\<close> runs \<open>f\<close> on the result of
  \<open>m\<close> unless \<open>m\<close> raised.
\<close>

definition and_then :: "py_error + 'a \<Rightarrow> ('a \<Rightarrow> py_error + 'b) \<Rightarrow> py_error + 'b" where
  "and_then m f = (case m of Inl e \<Rightarrow> Inl e | Inr x \<Rightarrow> f x)"

text \<open>
  \<^verbatim>\<open>np.argmax\<close>: the index of the first maximum; \<^verbatim>\<open>ValueError\<close> on an empty array.
  The scan keeps the best value and its index and replaces them only by a strictly
  greater entry.
\<close>

fun argmax_scan :: "real list \<Rightarrow> nat \<Rightarrow> real \<Rightarrow> nat \<Rightarrow> nat" where
  "argmax_scan [] i best_v best_i = best_i"
| "argmax_scan (x # xs) i best_v best_i =
     (if best_v < x then argmax_scan xs (Suc i) x i
      else argmax_scan xs (Suc i) best_v best_i)"

definition argmax :: "real list \<Rightarrow> py_error + nat" where
  "argmax xs = (case xs of [] \<Rightarrow> Inl ValueError | x # ys \<Rightarrow> Inr (argmax_scan ys 1 x 0))"

text \<open>\<^verbatim>\<open>np.max\<close>: the largest entry; \<^verbatim>\<open>ValueError\<close> on an empty array.\<close>

definition np_max :: "real list \<Rightarrow> py_error + real" where
  "np_max xs = (case xs of [] \<Rightarrow> Inl ValueError | x # ys \<Rightarrow> Inr (fold max ys x))"

text \<open>\<^verbatim>\<open>np.cumsum\<close>: the running sums of an array.\<close>

fun cumsum_from :: "real \<Rightarrow> real list \<Rightarrow> real list" where
  "cumsum_from acc [] = []"
| "cumsum_from acc (x # xs) = (acc + x) # cumsum_from (acc + x) xs"

definition cumsum :: "real list \<Rightarrow> real list" where
  "cumsum xs = cumsum_from 0 xs"

subsection \<open>The random source\<close>

text \<open>
  The state of \<^verbatim>\<open>np.random\<close> is modelled by the values it is going to return: one
  stream for the results of \<^verbatim>\<open>np.random.rand()\<close>, one for the results of
  \<^verbatim>\<open>np.random.randint(K)\<close>, one for the samples of \<^verbatim>\<open>np.random.beta\<close>. A call takes
  the head of its stream. Every sequence of outcomes of a real run is the prefix of such
  streams, so a statement for all \<open>rng\<close> covers every seed.
\<close>

record rng =
  rand_draws :: "real stream"
  randint_draws :: "nat stream"
  beta_draws :: "real stream"

definition rand :: "rng \<Rightarrow> real \<times> rng" where
  "rand g = (shd (rand_draws g), g\<lparr>rand_draws := stl (rand_draws g)\<rparr>)"

text \<open>\<^verbatim>\<open>np.random.randint(high)\<close> raises \<^verbatim>\<open>ValueError\<close> for \<open>high \<le> 0\<close>.\<close>

definition randint :: "nat \<Rightarrow> rng \<Rightarrow> py_error + nat \<times> rng" where
  "randint high g =
     (if high = 0 then Inl ValueError
      else Inr (shd (randint_draws g), g\<lparr>randint_draws := stl (randint_draws g)\<rparr>))"

text \<open>
  \<^verbatim>\<open>np.random.beta(a, b)\<close> on two arrays of the same shape (the only way the program
  calls it): \<^verbatim>\<open>ValueError\<close> if some parameter is not positive, else one sample per
  entry.
\<close>

definition beta_sample :: "real list \<Rightarrow> real list \<Rightarrow> rng \<Rightarrow> py_error + real list \<times> rng" where
  "beta_sample a b g =
     (if (\<exists>x \<in> set a. x \<le> 0) \<or> (\<exists>x \<in> set b. x \<le> 0) then Inl ValueError
      else Inr (stake (length a) (beta_draws g),
                g\<lparr>beta_draws := sdrop (length a) (beta_draws g)\<rparr>))"

text \<open>
  What numpy documents about the outcomes: \<^verbatim>\<open>rand()\<close> lies in \<open>[0, 1)\<close>, and
  \<^verbatim>\<open>randint(k)\<close> lies in \<open>[0, k)\<close>.
\<close>

definition rand_ok :: "rng \<Rightarrow> bool" where
  "rand_ok g = (\<forall>u \<in> sset (rand_draws g). 0 \<le> u \<and> u < 1)"

definition randint_ok :: "nat \<Rightarrow> rng \<Rightarrow> bool" where
  "randint_ok k g = (\<forall>n \<in> sset (randint_draws g). n < k)"

subsection \<open>The environment: class \<^verbatim>\<open>AdBandit\<close>\<close>

record AdBandit =
  ads :: "string list"
  ctrs :: "real list"
  K :: nat

definition AdBandit_init :: "string list \<Rightarrow> real list \<Rightarrow> AdBandit" where
  "AdBandit_init ad_list ctr_list = \<lparr>ads = ad_list, ctrs = ctr_list, K = length ad_list\<rparr>"

text \<open>
  \<^verbatim>\<open>return 1 if np.random.rand() < self.ctrs[arm] else 0\<close>: the draw is the left
  operand and comes first, then the array is indexed.
\<close>

definition pull :: "AdBandit \<Rightarrow> int \<Rightarrow> rng \<Rightarrow> py_error + int \<times> rng" where
  "pull env arm g =
     (let (u, g') = rand g
      in and_then (getitem (ctrs env) arm) (\<lambda>p.
         Inr (if u < p then 1 else 0, g')))"

definition expected_rewards :: "AdBandit \<Rightarrow> real list" where
  "expected_rewards env = ctrs env"

subsection \<open>The loop \<^verbatim>\<open>for t in range(T)\<close>\<close>

text \<open>
  \<open>for_range n body s\<close> runs \<open>body 0\<close>, \<open>body 1\<close>, ..., \<open>body (n - 1)\<close> in this
  order on the state \<open>s\<close> and stops at the first exception. It is also the state after
  the first \<open>n\<close> iterations of a longer loop.
\<close>

primrec for_range :: "nat \<Rightarrow> (nat \<Rightarrow> 's \<Rightarrow> py_error + 's) \<Rightarrow> 's \<Rightarrow> py_error + 's" where
  "for_range 0 body s = Inr s"
| "for_range (Suc n) body s = and_then (for_range n body s) (body n)"

subsection \<open>State of the algorithms\<close>

text \<open>
  The local arrays of the three functions. \<open>rewards\<close> and \<open>chosen\<close> are the trace that
  is returned; \<open>counts\<close> and \<open>vals\<close> (the source's \<^verbatim>\<open>values\<close>) belong to
  \<^verbatim>\<open>epsilon_greedy\<close> and \<^verbatim>\<open>ucb1\<close>, \<open>alpha\<close> and \<open>beta\<close> to \<^verbatim>\<open>thompson_sampling\<close>.
\<close>

record trace =
  rewards :: "real list"
  chosen :: "nat list"

record est_state = trace +
  counts :: "real list"
  vals :: "real list"

record ts_state = trace +
  alpha :: "real list"
  beta :: "real list"

text \<open>
  The update shared by \<^verbatim>\<open>epsilon_greedy\<close> and \<^verbatim>\<open>ucb1\<close>:
  \<^verbatim>\<open>counts[arm] += 1\<close> and then
  \<^verbatim>\<open>values[arm] += (r - values[arm]) / counts[arm]\<close>, which reads the count that has
  just been incremented.
\<close>

definition incremental_update ::
  "real list \<Rightarrow> real list \<Rightarrow> nat \<Rightarrow> real \<Rightarrow> py_error + real list \<times> real list" where
  "incremental_update cs vs arm r =
     and_then (getitem cs (int arm)) (\<lambda>c.
     and_then (setitem cs (int arm) (c + 1)) (\<lambda>cs'.
     and_then (getitem vs (int arm)) (\<lambda>v.
     and_then (getitem cs' (int arm)) (\<lambda>c'.
     and_then (setitem vs (int arm) (v + (r - v) / c')) (\<lambda>vs'.
     Inr (cs', vs'))))))"

text \<open>\<^verbatim>\<open>rewards[t] = r; chosen[t] = arm\<close>.\<close>

definition record_step :: "real list \<Rightarrow> nat list \<Rightarrow> nat \<Rightarrow> real \<Rightarrow> nat \<Rightarrow>
    py_error + real list \<times> nat list" where
  "record_step rs ch t r arm =
     and_then (setitem rs (int t) r) (\<lambda>rs'.
     and_then (setitem ch (int t) arm) (\<lambda>ch'.
     Inr (rs', ch')))"

subsection \<open>\<^verbatim>\<open>epsilon_greedy\<close>\<close>

text \<open>
  \<^verbatim>\<open>arm = np.random.randint(K) if np.random.rand() < eps else np.argmax(values)\<close>:
  the condition is evaluated first, and \<^verbatim>\<open>randint\<close> is called only when it holds.
\<close>

definition eg_select :: "nat \<Rightarrow> real \<Rightarrow> real list \<Rightarrow> rng \<Rightarrow> py_error + nat \<times> rng" where
  "eg_select k eps vs g =
     (let (u, g') = rand g
      in if u < eps then randint k g'
         else and_then (argmax vs) (\<lambda>a. Inr (a, g')))"

definition eg_step :: "AdBandit \<Rightarrow> real \<Rightarrow> nat \<Rightarrow> est_state \<times> rng \<Rightarrow>
    py_error + est_state \<times> rng" where
  "eg_step env eps t sg =
     and_then (eg_select (K env) eps (vals (fst sg)) (snd sg)) (\<lambda>(arm, g1).
     and_then (pull env (int arm) g1) (\<lambda>(r, g2).
     and_then (incremental_update (counts (fst sg)) (vals (fst sg)) arm (real_of_int r)) (\<lambda>(cs, vs).
     and_then (record_step (rewards (fst sg)) (chosen (fst sg)) t (real_of_int r) arm) (\<lambda>(rs, ch).
     Inr (\<lparr>rewards = rs, chosen = ch, counts = cs, vals = vs\<rparr>, g2)))))"

text \<open>
  The arrays before the loop. \<^verbatim>\<open>np.zeros(T)\<close> raises \<^verbatim>\<open>ValueError\<close> for a negative
  \<open>T\<close>; this is checked where the functions are entered, so the state is built for a
  length \<open>n = nat T\<close>.
\<close>

definition eg_init :: "nat \<Rightarrow> nat \<Rightarrow> est_state" where
  "eg_init k n = \<lparr>rewards = replicate n 0, chosen = replicate n 0,
                  counts = replicate k 0, vals = replicate k 0\<rparr>"

text \<open>The state of \<^verbatim>\<open>epsilon_greedy\<close> after the first \<open>n\<close> iterations of its loop.\<close>

definition eg_after :: "AdBandit \<Rightarrow> int \<Rightarrow> real \<Rightarrow> rng \<Rightarrow> nat \<Rightarrow> py_error + est_state \<times> rng" where
  "eg_after env T eps g n = for_range n (eg_step env eps) (eg_init (K env) (nat T), g)"

definition epsilon_greedy :: "AdBandit \<Rightarrow> int \<Rightarrow> real \<Rightarrow> rng \<Rightarrow>
    py_error + (real list \<times> nat list) \<times> rng" where
  "epsilon_greedy env T eps g =
     (if T < 0 then Inl ValueError
      else and_then (eg_after env T eps g (nat T)) (\<lambda>(s, g').
             Inr ((rewards s, chosen s), g')))"

subsection \<open>\<^verbatim>\<open>ucb1\<close>\<close>

text \<open>\<^verbatim>\<open>ucb = values + np.sqrt((2 * np.log(t + 1)) / counts)\<close>, entry by entry.\<close>

definition ucb_bounds :: "nat \<Rightarrow> real list \<Rightarrow> real list \<Rightarrow> real list" where
  "ucb_bounds t vs cs = map2 (\<lambda>v c. v + sqrt ((2 * ln (real (t + 1))) / c)) vs cs"

definition ucb_step :: "AdBandit \<Rightarrow> nat \<Rightarrow> est_state \<times> rng \<Rightarrow> py_error + est_state \<times> rng" where
  "ucb_step env t sg =
     and_then (argmax (ucb_bounds t (vals (fst sg)) (counts (fst sg)))) (\<lambda>arm.
     and_then (pull env (int arm) (snd sg)) (\<lambda>(r, g1).
     and_then (incremental_update (counts (fst sg)) (vals (fst sg)) arm (real_of_int r)) (\<lambda>(cs, vs).
     and_then (record_step (rewards (fst sg)) (chosen (fst sg)) t (real_of_int r) arm) (\<lambda>(rs, ch).
     Inr (\<lparr>rewards = rs, chosen = ch, counts = cs, vals = vs\<rparr>, g1)))))"

definition ucb_init :: "nat \<Rightarrow> nat \<Rightarrow> est_state" where
  "ucb_init k n = \<lparr>rewards = replicate n 0, chosen = replicate n 0,
                   counts = replicate k 1, vals = replicate k 0\<rparr>"

definition ucb_after :: "AdBandit \<Rightarrow> int \<Rightarrow> rng \<Rightarrow> nat \<Rightarrow> py_error + est_state \<times> rng" where
  "ucb_after env T g n = for_range n (ucb_step env) (ucb_init (K env) (nat T), g)"

definition ucb1 :: "AdBandit \<Rightarrow> int \<Rightarrow> rng \<Rightarrow> py_error + (real list \<times> nat list) \<times> rng" where
  "ucb1 env T g =
     (if T < 0 then Inl ValueError
      else and_then (ucb_after env T g (nat T)) (\<lambda>(s, g').
             Inr ((rewards s, chosen s), g')))"

subsection \<open>\<^verbatim>\<open>thompson_sampling\<close>\<close>

text \<open>\<^verbatim>\<open>alpha[arm] += r; beta[arm] += (1 - r)\<close>.\<close>

definition ts_posterior_update :: "real list \<Rightarrow> real list \<Rightarrow> nat \<Rightarrow> real \<Rightarrow>
    py_error + real list \<times> real list" where
  "ts_posterior_update al be arm r =
     and_then (getitem al (int arm)) (\<lambda>a.
     and_then (setitem al (int arm) (a + r)) (\<lambda>al'.
     and_then (getitem be (int arm)) (\<lambda>b.
     and_then (setitem be (int arm) (b + (1 - r))) (\<lambda>be'.
     Inr (al', be')))))"

definition ts_step :: "AdBandit \<Rightarrow> nat \<Rightarrow> ts_state \<times> rng \<Rightarrow> py_error + ts_state \<times> rng" where
  "ts_step env t sg =
     and_then (beta_sample (alpha (fst sg)) (beta (fst sg)) (snd sg)) (\<lambda>(theta, g1).
     and_then (argmax theta) (\<lambda>arm.
     and_then (pull env (int arm) g1) (\<lambda>(r, g2).
     and_then (record_step (rewards (fst sg)) (chosen (fst sg)) t (real_of_int r) arm) (\<lambda>(rs, ch).
     and_then (ts_posterior_update (alpha (fst sg)) (beta (fst sg)) arm (real_of_int r)) (\<lambda>(al, be).
     Inr (\<lparr>rewards = rs, chosen = ch, alpha = al, beta = be\<rparr>, g2))))))"

definition ts_init :: "nat \<Rightarrow> nat \<Rightarrow> ts_state" where
  "ts_init k n = \<lparr>rewards = replicate n 0, chosen = replicate n 0,
                  alpha = replicate k 1, beta = replicate k 1\<rparr>"

definition ts_after :: "AdBandit \<Rightarrow> int \<Rightarrow> rng \<Rightarrow> nat \<Rightarrow> py_error + ts_state \<times> rng" where
  "ts_after env T g n = for_range n (ts_step env) (ts_init (K env) (nat T), g)"

definition thompson_sampling :: "AdBandit \<Rightarrow> int \<Rightarrow> rng \<Rightarrow>
    py_error + (real list \<times> nat list) \<times> rng" where
  "thompson_sampling env T g =
     (if T < 0 then Inl ValueError
      else and_then (ts_after env T g (nat T)) (\<lambda>(s, g').
             Inr ((rewards s, chosen s), g')))"

subsection \<open>\<^verbatim>\<open>BanditApp.run_simulation\<close>\<close>

text \<open>
  The dictionary \<^verbatim>\<open>self.results\<close>; its key \<^verbatim>\<open>"ads"\<close> is the field \<open>res_ads\<close>.
\<close>

record results =
  eg :: "real list"
  ucb :: "real list"
  ts :: "real list"
  reg_eg :: "real list"
  reg_ucb :: "real list"
  reg_ts :: "real list"
  res_ads :: "string list"
  expected :: "real list"

text \<open>
  \<^verbatim>\<open>run_simulation\<close> reads the table \<^verbatim>\<open>ads_dataset.csv\<close> with pandas and takes its
  columns \<^verbatim>\<open>"Ad"\<close> and \<^verbatim>\<open>"CTR"\<close>. The table is the argument \<open>data\<close>, one pair per
  row, so both columns have the length of the table. The horizon is the local constant
  \<^verbatim>\<open>T = 5000\<close>; \<open>run_simulation_with\<close> is the body of the method with the horizon
  as an argument. \<^verbatim>\<open>epsilon_greedy(env, T)\<close> takes the default \<^verbatim>\<open>eps=0.1\<close>.
  \<^verbatim>\<open>optimal - eg_r\<close> subtracts every entry of the trace from the scalar.
\<close>

definition run_simulation_with :: "int \<Rightarrow> (string \<times> real) list \<Rightarrow> rng \<Rightarrow>
    py_error + results \<times> rng" where
  "run_simulation_with T data g =
     (let ad_list = map fst data; ctr_list = map snd data; env = AdBandit_init ad_list ctr_list
      in and_then (epsilon_greedy env T (1 / 10) g) (\<lambda>((eg_r, eg_c), g1).
         and_then (ucb1 env T g1) (\<lambda>((ucb_r, ucb_c), g2).
         and_then (thompson_sampling env T g2) (\<lambda>((ts_r, ts_c), g3).
         and_then (np_max (expected_rewards env)) (\<lambda>optimal.
         Inr (\<lparr>eg = cumsum eg_r, ucb = cumsum ucb_r, ts = cumsum ts_r,
               reg_eg = cumsum (map (\<lambda>r. optimal - r) eg_r),
               reg_ucb = cumsum (map (\<lambda>r. optimal - r) ucb_r),
               reg_ts = cumsum (map (\<lambda>r. optimal - r) ts_r),
               res_ads = ad_list, expected = ctr_list\<rparr>, g3))))))"

definition run_simulation :: "(string \<times> real) list \<Rightarrow> rng \<Rightarrow> py_error + results \<times> rng" where
  "run_simulation data g = run_simulation_with 5000 data g"

subsection \<open>Vocabulary of the properties\<close>

text \<open>
  For a trace and a number \<open>n\<close> of completed steps: how often arm \<open>a\<close> was pulled in
  the steps \<open>0, ..., n - 1\<close>, and the sum of the rewards that these pulls returned.
\<close>

definition pulls :: "nat list \<Rightarrow> nat \<Rightarrow> nat \<Rightarrow> nat" where
  "pulls ch a n = length (filter (\<lambda>i. ch ! i = a) [0..<n])"

definition reward_sum :: "real list \<Rightarrow> nat list \<Rightarrow> nat \<Rightarrow> nat \<Rightarrow> real" where
  "reward_sum rs ch a n = sum_list (map (\<lambda>i. if ch ! i = a then rs ! i else 0) [0..<n])"

text \<open>
  One iteration of \<^verbatim>\<open>epsilon_greedy\<close> or \<^verbatim>\<open>ucb1\<close> that raises nothing, as a function
  of the arm it chose and the reward it saw.
\<close>

definition est_next :: "nat \<Rightarrow> nat \<Rightarrow> real \<Rightarrow> est_state \<Rightarrow> est_state" where
  "est_next t arm r s =
     \<lparr>rewards = (rewards s)[t := r], chosen = (chosen s)[t := arm],
      counts = (counts s)[arm := counts s ! arm + 1],
      vals = (vals s)[arm := vals s ! arm + (r - vals s ! arm) / (counts s ! arm + 1)]\<rparr>"

text \<open>
  The loop invariant of \<^verbatim>\<open>epsilon_greedy\<close> (\<open>c0 = 0\<close>) and \<^verbatim>\<open>ucb1\<close> (\<open>c0 = 1\<close>) after
  \<open>n\<close> iterations, for \<open>k\<close> arms and a horizon \<open>m\<close>: the shapes of the arrays, the
  entries of the trace written so far, and counts and estimates in terms of the trace.
\<close>

definition est_inv :: "nat \<Rightarrow> nat \<Rightarrow> real \<Rightarrow> nat \<Rightarrow> est_state \<Rightarrow> bool" where
  "est_inv k m c0 n s \<longleftrightarrow>
     length (rewards s) = m \<and> length (chosen s) = m \<and>
     length (counts s) = k \<and> length (vals s) = k \<and> n \<le> m \<and>
     (\<forall>i<n. chosen s ! i < k \<and> (rewards s ! i = 0 \<or> rewards s ! i = 1)) \<and>
     (\<forall>a<k. counts s ! a = c0 + real (pulls (chosen s) a n) \<and>
            vals s ! a * counts s ! a = reward_sum (rewards s) (chosen s) a n)"

text \<open>One iteration of \<^verbatim>\<open>thompson_sampling\<close> that raises nothing.\<close>

definition ts_next :: "nat \<Rightarrow> nat \<Rightarrow> real \<Rightarrow> ts_state \<Rightarrow> ts_state" where
  "ts_next t arm r s =
     \<lparr>rewards = (rewards s)[t := r], chosen = (chosen s)[t := arm],
      alpha = (alpha s)[arm := alpha s ! arm + r],
      beta = (beta s)[arm := beta s ! arm + (1 - r)]\<rparr>"

text \<open>The loop invariant of \<^verbatim>\<open>thompson_sampling\<close> after \<open>n\<close> iterations.\<close>

definition ts_inv :: "nat \<Rightarrow> nat \<Rightarrow> nat \<Rightarrow> ts_state \<Rightarrow> bool" where
  "ts_inv k m n s \<longleftrightarrow>
     length (rewards s) = m \<and> length (chosen s) = m \<and>
     length (alpha s) = k \<and> length (beta s) = k \<and> n \<le> m \<and>
     (\<forall>i<n. chosen s ! i < k \<and> (rewards s ! i = 0 \<or> rewards s ! i = 1)) \<and>
     (\<forall>a<k. 1 \<le> alpha s ! a \<and> 1 \<le> beta s ! a \<and>
            alpha s ! a - 1 = reward_sum (rewards s) (chosen s) a n \<and>
            alpha s ! a + beta s ! a - 2 = real (pulls (chosen s) a n))"

text \<open>
  A returned trace for \<open>k\<close> arms and \<open>m\<close> steps: \<open>m\<close> rewards, each 0 or 1, and \<open>m\<close>
  arm indices, each below \<open>k\<close>.
\<close>

definition valid_trace :: "nat \<Rightarrow> nat \<Rightarrow> real list \<times> nat list \<Rightarrow> bool" where
  "valid_trace k m tr \<longleftrightarrow>
     length (fst tr) = m \<and> length (snd tr) = m \<and>
     (\<forall>r \<in> set (fst tr). r = 0 \<or> r = 1) \<and> (\<forall>c \<in> set (snd tr). c < k)"

text \<open>
  A constant random source, for concrete runs: every \<^verbatim>\<open>rand()\<close> returns \<open>u\<close>, every
  \<^verbatim>\<open>randint\<close> returns \<open>i\<close>, every beta sample is \<open>b\<close>.
\<close>

definition const_rng :: "real \<Rightarrow> nat \<Rightarrow> real \<Rightarrow> rng" where
  "const_rng u i b = \<lparr>rand_draws = sconst u, randint_draws = sconst i, beta_draws = sconst b\<rparr>"

text \<open>
  A small environment and a random source for concrete runs. With \<open>example_rng\<close> the
  first \<^verbatim>\<open>rand()\<close> returns \<open>1/20\<close> and every later one \<open>1/2\<close>, every
  \<^verbatim>\<open>randint\<close> returns 1 and every beta sample is \<open>1/2\<close>.
\<close>

definition example_data :: "(string \<times> real) list" where
  "example_data = [(''A'', 1 / 5), (''B'', 9 / 10)]"

definition example_env :: AdBandit where
  "example_env = AdBandit_init (map fst example_data) (map snd example_data)"

definition example_rng :: rng where
  "example_rng = \<lparr>rand_draws = (1 / 20) ## sconst (1 / 2), randint_draws = sconst 1,
                   beta_draws = sconst (1 / 2)\<rparr>"

section \<open>Facts about the primitives\<close>

subsection \<open>Sequencing, arrays and the loop\<close>

lemma and_then_simps [simp]:
  "and_then (Inl e) f = Inl e" "and_then (Inr x) f = f x"
  by (simp_all add: and_then_def)

lemma and_then_eq_Inr: "and_then m f = Inr y \<longleftrightarrow> (\<exists>x. m = Inr x \<and> f x = Inr y)"
  by (cases m) simp_all

lemma getitem_nat:
  "getitem xs (int i) = (if i < length xs then Inr (xs ! i) else Inl IndexError)"
  by (simp add: getitem_def)

lemma setitem_nat:
  "setitem xs (int i) v = (if i < length xs then Inr (xs[i := v]) else Inl IndexError)"
  by (simp add: setitem_def)

lemma for_range_Inl:
  "for_range n body s = Inl e \<Longrightarrow> n \<le> m \<Longrightarrow> for_range m body s = Inl e"
  by (induction m) (auto simp: le_Suc_eq)

subsection \<open>\<^verbatim>\<open>np.argmax\<close>, \<^verbatim>\<open>np.max\<close> and \<^verbatim>\<open>np.cumsum\<close>\<close>

text \<open>
  \<open>argmax\<close> fails on the empty array only, and what it returns is the first index of
  a largest entry.
\<close>

lemma argmax_scan_less: "bi < i \<Longrightarrow> argmax_scan xs i bv bi < i + length xs"
proof (induction xs arbitrary: i bv bi)
  case Nil
  then show ?case by simp
next
  case (Cons x xs)
  have "argmax_scan xs (Suc i) x i < Suc i + length xs"
    by (rule Cons.IH) simp
  moreover have "argmax_scan xs (Suc i) bv bi < Suc i + length xs"
    using Cons.prems by (intro Cons.IH) simp
  ultimately show ?case by simp
qed

lemma argmax_Nil [simp]: "argmax [] = Inl ValueError"
  by (simp add: argmax_def)

lemma argmax_Inr: "xs \<noteq> [] \<Longrightarrow> \<exists>i. argmax xs = Inr i \<and> i < length xs"
  using argmax_scan_less [of 0 1] by (cases xs) (auto simp: argmax_def)

lemma argmax_less: "argmax xs = Inr i \<Longrightarrow> i < length xs"
  using argmax_Inr [of xs] by (cases xs) auto

lemma argmax_single [simp]: "argmax [x] = Inr 0"
  by (simp add: argmax_def)

lemma argmax_scan_first_max:
  assumes "bi < length ys" and "ys ! bi = bv" and "\<forall>j<length ys. ys ! j \<le> bv"
    and "\<forall>j<bi. ys ! j < bv"
  shows "argmax_scan xs (length ys) bv bi < length (ys @ xs) \<and>
         (\<forall>j<length (ys @ xs). (ys @ xs) ! j \<le> (ys @ xs) ! argmax_scan xs (length ys) bv bi) \<and>
         (\<forall>j<argmax_scan xs (length ys) bv bi. (ys @ xs) ! j < (ys @ xs) ! argmax_scan xs (length ys) bv bi)"
  using assms
proof (induction xs arbitrary: ys bv bi)
  case Nil
  then show ?case by simp
next
  case (Cons x xs)
  show ?case
  proof (cases "bv < x")
    case True
    have "length ys < length (ys @ [x])" "(ys @ [x]) ! length ys = x" by simp_all
    moreover from Cons.prems(3) True have "\<forall>j<length (ys @ [x]). (ys @ [x]) ! j \<le> x"
      by (auto simp: nth_append less_Suc_eq)
    moreover from Cons.prems(3) True have "\<forall>j<length ys. (ys @ [x]) ! j < x"
      by (auto simp: nth_append)
    ultimately have "argmax_scan xs (length (ys @ [x])) x (length ys) < length ((ys @ [x]) @ xs) \<and>
         (\<forall>j<length ((ys @ [x]) @ xs). ((ys @ [x]) @ xs) ! j \<le> ((ys @ [x]) @ xs) ! argmax_scan xs (length (ys @ [x])) x (length ys)) \<and>
         (\<forall>j<argmax_scan xs (length (ys @ [x])) x (length ys). ((ys @ [x]) @ xs) ! j < ((ys @ [x]) @ xs) ! argmax_scan xs (length (ys @ [x])) x (length ys))"
      by (rule Cons.IH)
    with True show ?thesis by simp
  next
    case False
    from Cons.prems(1) have "bi < length (ys @ [x])" by simp
    moreover from Cons.prems(1,2) have "(ys @ [x]) ! bi = bv" by (simp add: nth_append)
    moreover from Cons.prems(3) False have "\<forall>j<length (ys @ [x]). (ys @ [x]) ! j \<le> bv"
      by (auto simp: nth_append less_Suc_eq)
    moreover from Cons.prems(1,4) have "\<forall>j<bi. (ys @ [x]) ! j < bv"
      by (auto simp: nth_append)
    ultimately have "argmax_scan xs (length (ys @ [x])) bv bi < length ((ys @ [x]) @ xs) \<and>
         (\<forall>j<length ((ys @ [x]) @ xs). ((ys @ [x]) @ xs) ! j \<le> ((ys @ [x]) @ xs) ! argmax_scan xs (length (ys @ [x])) bv bi) \<and>
         (\<forall>j<argmax_scan xs (length (ys @ [x])) bv bi. ((ys @ [x]) @ xs) ! j < ((ys @ [x]) @ xs) ! argmax_scan xs (length (ys @ [x])) bv bi)"
      by (rule Cons.IH)
    with False show ?thesis by simp
  qed
qed

lemma argmax_first_max:
  assumes "argmax xs = Inr i"
  shows "i < length xs \<and> (\<forall>j<length xs. xs ! j \<le> xs ! i) \<and> (\<forall>j<i. xs ! j < xs ! i)"
proof (cases xs)
  case Nil
  with assms show ?thesis by (simp add: argmax_def)
next
  case (Cons x ys)
  with assms have i: "i = argmax_scan ys (length [x]) x 0" by (simp add: argmax_def)
  have "argmax_scan ys (length [x]) x 0 < length ([x] @ ys) \<and>
         (\<forall>j<length ([x] @ ys). ([x] @ ys) ! j \<le> ([x] @ ys) ! argmax_scan ys (length [x]) x 0) \<and>
         (\<forall>j<argmax_scan ys (length [x]) x 0. ([x] @ ys) ! j < ([x] @ ys) ! argmax_scan ys (length [x]) x 0)"
    by (rule argmax_scan_first_max) simp_all
  with i Cons show ?thesis by simp
qed

lemma np_max_Max: "xs \<noteq> [] \<Longrightarrow> np_max xs = Inr (Max (set xs))"
proof (cases xs)
  case Nil
  assume "xs \<noteq> []"
  with Nil show ?thesis by simp
next
  case (Cons x ys)
  have "fold max ys x = Max (set (x # ys))"
    by (rule Max.set_eq_fold [symmetric])
  with Cons show ?thesis by (simp add: np_max_def)
qed

lemma length_cumsum_from [simp]: "length (cumsum_from acc xs) = length xs"
  by (induction xs arbitrary: acc) simp_all

lemma length_cumsum [simp]: "length (cumsum xs) = length xs"
  by (simp add: cumsum_def)

lemma cumsum_from_nth:
  "t < length xs \<Longrightarrow> cumsum_from acc xs ! t = acc + sum_list (take (Suc t) xs)"
proof (induction xs arbitrary: acc t)
  case Nil
  then show ?case by simp
next
  case (Cons x xs)
  show ?case
  proof (cases t)
    case 0
    then show ?thesis by simp
  next
    case (Suc u)
    with Cons.prems have "u < length xs" by simp
    from Cons.IH [OF this, of "acc + x"] Suc show ?thesis by simp
  qed
qed

lemma cumsum_nth: "t < length xs \<Longrightarrow> cumsum xs ! t = sum_list (take (Suc t) xs)"
  by (simp add: cumsum_def cumsum_from_nth)

lemma sum_list_const_minus:
  "sum_list (map (\<lambda>r. c - r) ys) = real (length ys) * c - sum_list ys"
  by (induction ys) (simp_all add: algebra_simps)

lemma regret_nth:
  assumes "t < length rs"
  shows "cumsum (map (\<lambda>r. c - r) rs) ! t = real (Suc t) * c - cumsum rs ! t"
proof -
  from assms have "length (take (Suc t) rs) = Suc t" by simp
  with sum_list_const_minus [of c "take (Suc t) rs"]
  have "sum_list (map (\<lambda>r. c - r) (take (Suc t) rs)) = real (Suc t) * c - sum_list (take (Suc t) rs)"
    by simp
  with assms show ?thesis by (simp add: cumsum_nth take_map)
qed

lemma regret_step:
  assumes "Suc t < length rs"
  shows "cumsum (map (\<lambda>r. c - r) rs) ! Suc t - cumsum (map (\<lambda>r. c - r) rs) ! t =
         c - (cumsum rs ! Suc t - cumsum rs ! t)"
proof -
  from assms have "t < length rs" by simp
  from regret_nth [OF assms, of c] regret_nth [OF this, of c] show ?thesis
    by (simp add: algebra_simps)
qed

subsection \<open>The random source and \<open>pull\<close>\<close>

lemma rand_ok_shd: "rand_ok g \<Longrightarrow> 0 \<le> shd (rand_draws g) \<and> shd (rand_draws g) < 1"
  using shd_sset [of "rand_draws g"] by (auto simp: rand_ok_def)

lemma randint_ok_rand [simp]: "randint_ok k (snd (rand g)) = randint_ok k g"
  by (simp add: randint_ok_def rand_def)

lemma pull_nat:
  "pull env (int a) g =
     (if a < length (ctrs env)
      then Inr (if shd (rand_draws g) < ctrs env ! a then 1 else 0, g\<lparr>rand_draws := stl (rand_draws g)\<rparr>)
      else Inl IndexError)"
  by (simp add: pull_def rand_def getitem_nat)

lemma pull_Inr:
  "pull env (int a) g = Inr (r, g') \<Longrightarrow> a < length (ctrs env) \<and> (r = 0 \<or> r = 1)"
  by (auto simp: pull_nat split: if_splits)

lemma beta_sample_total:
  assumes "\<forall>x \<in> set a. 1 \<le> x" "\<forall>x \<in> set b. 1 \<le> x"
  shows "\<exists>theta g'. beta_sample a b g = Inr (theta, g') \<and> length theta = length a"
proof -
  from assms have "\<not> ((\<exists>x \<in> set a. x \<le> 0) \<or> (\<exists>x \<in> set b. x \<le> 0))"
    by fastforce
  then show ?thesis by (simp add: beta_sample_def)
qed

subsection \<open>The updates of the arrays\<close>

text \<open>
  With an index of type \<open>nat\<close> each update either raises \<^verbatim>\<open>IndexError\<close> or is a list
  update.
\<close>

lemma incremental_update_eq:
  "incremental_update cs vs arm r =
     (if arm < length cs \<and> arm < length vs
      then Inr (cs[arm := cs ! arm + 1], vs[arm := vs ! arm + (r - vs ! arm) / (cs ! arm + 1)])
      else Inl IndexError)"
  by (simp add: incremental_update_def getitem_nat setitem_nat)

lemma record_step_eq:
  "record_step rs ch t r arm =
     (if t < length rs \<and> t < length ch then Inr (rs[t := r], ch[t := arm]) else Inl IndexError)"
  by (simp add: record_step_def setitem_nat)

lemma ts_posterior_update_eq:
  "ts_posterior_update al be arm r =
     (if arm < length al \<and> arm < length be
      then Inr (al[arm := al ! arm + r], be[arm := be ! arm + (1 - r)])
      else Inl IndexError)"
  by (simp add: ts_posterior_update_def getitem_nat setitem_nat)

subsection \<open>Pulls and rewards in a trace\<close>

lemma pulls_0 [simp]: "pulls ch a 0 = 0"
  by (simp add: pulls_def)

lemma reward_sum_0 [simp]: "reward_sum rs ch a 0 = 0"
  by (simp add: reward_sum_def)

lemma pulls_step:
  "n < length ch \<Longrightarrow> pulls (ch[n := arm]) a (Suc n) = pulls ch a n + (if arm = a then 1 else 0)"
proof -
  assume n: "n < length ch"
  have eq: "filter (\<lambda>i. ch[n := arm] ! i = a) [0..<n] = filter (\<lambda>i. ch ! i = a) [0..<n]"
    by (rule filter_cong) auto
  show ?thesis using n by (simp add: pulls_def eq)
qed

lemma reward_sum_step:
  "n < length ch \<Longrightarrow> n < length rs \<Longrightarrow>
     reward_sum (rs[n := r]) (ch[n := arm]) a (Suc n) = reward_sum rs ch a n + (if arm = a then r else 0)"
proof -
  assume n: "n < length ch" "n < length rs"
  have eq: "map (\<lambda>i. if ch[n := arm] ! i = a then rs[n := r] ! i else 0) [0..<n] =
        map (\<lambda>i. if ch ! i = a then rs ! i else 0) [0..<n]"
    by (rule map_cong) auto
  show ?thesis using n by (simp add: reward_sum_def eq)
qed

lemma pulls_all: "\<forall>i<n. ch ! i = a \<Longrightarrow> pulls ch a n = n"
proof -
  assume "\<forall>i<n. ch ! i = a"
  then have "filter (\<lambda>i. ch ! i = a) [0..<n] = [0..<n]"
    by (simp add: filter_id_conv)
  then show ?thesis by (simp add: pulls_def)
qed

section \<open>Loop invariants\<close>

text \<open>
  A step that raises nothing is \<open>est_next\<close> (or \<open>ts_next\<close>) for some arm in range and
  some reward 0 or 1, and these keep the invariant. So the invariant holds for every
  state that a loop reaches.
\<close>

subsection \<open>\<^verbatim>\<open>epsilon_greedy\<close> and \<^verbatim>\<open>ucb1\<close>\<close>

lemma est_inv_next:
  assumes inv: "est_inv k m c0 n s" and c0: "0 \<le> c0" and n: "n < m" and arm: "arm < k"
    and r: "r = 0 \<or> r = 1"
  shows "est_inv k m c0 (Suc n) (est_next n arm r s)"
proof -
  from inv have len: "length (rewards s) = m" "length (chosen s) = m"
      "length (counts s) = k" "length (vals s) = k"
    and tr: "\<And>i. i < n \<Longrightarrow> chosen s ! i < k \<and> (rewards s ! i = 0 \<or> rewards s ! i = 1)"
    and st: "\<And>a. a < k \<Longrightarrow> counts s ! a = c0 + real (pulls (chosen s) a n)"
            "\<And>a. a < k \<Longrightarrow> vals s ! a * counts s ! a = reward_sum (rewards s) (chosen s) a n"
    by (auto simp: est_inv_def)
  have trace: "chosen (est_next n arm r s) ! i < k \<and>
      (rewards (est_next n arm r s) ! i = 0 \<or> rewards (est_next n arm r s) ! i = 1)"
    if "i < Suc n" for i
  proof (cases "i = n")
    case True
    with n len arm r show ?thesis by (simp add: est_next_def)
  next
    case False
    with that have "i < n" by simp
    with tr [of i] False show ?thesis by (simp add: est_next_def)
  qed
  have cnt: "counts (est_next n arm r s) ! a = c0 + real (pulls (chosen (est_next n arm r s)) a (Suc n))"
    if "a < k" for a
    using that st(1) [of a] n len arm by (simp add: est_next_def pulls_step nth_list_update)
  have pos: "0 < counts s ! arm + 1"
    using st(1) [OF arm] c0 by simp
  have val: "vals (est_next n arm r s) ! a * counts (est_next n arm r s) ! a =
      reward_sum (rewards (est_next n arm r s)) (chosen (est_next n arm r s)) a (Suc n)"
    if "a < k" for a
  proof (cases "a = arm")
    case True
    have "(vals s ! arm + (r - vals s ! arm) / (counts s ! arm + 1)) * (counts s ! arm + 1) =
          vals s ! arm * counts s ! arm + r"
      using pos by (simp add: field_simps)
    with True st(2) [OF arm] n len arm show ?thesis
      by (simp add: est_next_def reward_sum_step)
  next
    case False
    with that st(2) [of a] n len arm show ?thesis
      by (simp add: est_next_def reward_sum_step)
  qed
  from len n trace cnt val show ?thesis
    by (simp add: est_inv_def est_next_def)
qed

lemma eg_init_inv: "est_inv k m 0 0 (eg_init k m)"
  by (simp add: est_inv_def eg_init_def)

lemma ucb_init_inv: "est_inv k m 1 0 (ucb_init k m)"
  by (simp add: est_inv_def ucb_init_def)

lemma est_next_intro:
  assumes "incremental_update (counts s) (vals s) arm r = Inr (cs, vs)"
    and "record_step (rewards s) (chosen s) t r arm = Inr (rs, ch)"
  shows "arm < length (counts s) \<and> t < length (rewards s) \<and>
         \<lparr>rewards = rs, chosen = ch, counts = cs, vals = vs\<rparr> = est_next t arm r s"
  using assms
  by (auto simp: incremental_update_eq record_step_eq est_next_def split: if_splits)

lemma eg_step_Inr:
  assumes "eg_step env eps t sg = Inr sg'"
  shows "\<exists>arm r. (r = 0 \<or> r = 1) \<and> arm < length (counts (fst sg)) \<and>
           t < length (rewards (fst sg)) \<and> fst sg' = est_next t arm r (fst sg)"
proof -
  from assms obtain arm g1 r g2 cs vs rs ch where
    pl: "pull env (int arm) g1 = Inr (r, g2)" and
    up: "incremental_update (counts (fst sg)) (vals (fst sg)) arm (real_of_int r) = Inr (cs, vs)" and
    rc: "record_step (rewards (fst sg)) (chosen (fst sg)) t (real_of_int r) arm = Inr (rs, ch)" and
    sg': "sg' = (\<lparr>rewards = rs, chosen = ch, counts = cs, vals = vs\<rparr>, g2)"
    by (auto simp: eg_step_def and_then_eq_Inr)
  from pull_Inr [OF pl] have "real_of_int r = 0 \<or> real_of_int r = 1" by auto
  with est_next_intro [OF up rc] sg' show ?thesis
    by (intro exI [of _ arm] exI [of _ "real_of_int r"]) simp
qed

lemma ucb_step_Inr:
  assumes "ucb_step env t sg = Inr sg'"
  shows "\<exists>arm r. (r = 0 \<or> r = 1) \<and> arm < length (counts (fst sg)) \<and>
           t < length (rewards (fst sg)) \<and> fst sg' = est_next t arm r (fst sg)"
proof -
  from assms obtain arm r g2 cs vs rs ch where
    pl: "pull env (int arm) (snd sg) = Inr (r, g2)" and
    up: "incremental_update (counts (fst sg)) (vals (fst sg)) arm (real_of_int r) = Inr (cs, vs)" and
    rc: "record_step (rewards (fst sg)) (chosen (fst sg)) t (real_of_int r) arm = Inr (rs, ch)" and
    sg': "sg' = (\<lparr>rewards = rs, chosen = ch, counts = cs, vals = vs\<rparr>, g2)"
    by (auto simp: ucb_step_def and_then_eq_Inr)
  from pull_Inr [OF pl] have "real_of_int r = 0 \<or> real_of_int r = 1" by auto
  with est_next_intro [OF up rc] sg' show ?thesis
    by (intro exI [of _ arm] exI [of _ "real_of_int r"]) simp
qed

lemma eg_after_inv:
  "eg_after env T eps g n = Inr sg \<Longrightarrow> est_inv (K env) (nat T) 0 n (fst sg)"
proof (induction n arbitrary: sg)
  case 0
  then show ?case by (auto simp: eg_after_def eg_init_inv)
next
  case (Suc n)
  from Suc.prems obtain sg0 where run: "eg_after env T eps g n = Inr sg0"
    and step: "eg_step env eps n sg0 = Inr sg"
    by (auto simp: eg_after_def and_then_eq_Inr)
  from Suc.IH [OF run] have inv: "est_inv (K env) (nat T) 0 n (fst sg0)" .
  from eg_step_Inr [OF step] obtain arm r where r: "r = 0 \<or> r = 1"
    and arm: "arm < length (counts (fst sg0))" and n: "n < length (rewards (fst sg0))"
    and sg: "fst sg = est_next n arm r (fst sg0)"
    by blast
  from inv arm n have "arm < K env" "n < nat T" by (simp_all add: est_inv_def)
  with inv r sg show ?case by (simp add: est_inv_next)
qed

lemma ucb_after_inv:
  "ucb_after env T g n = Inr sg \<Longrightarrow> est_inv (K env) (nat T) 1 n (fst sg)"
proof (induction n arbitrary: sg)
  case 0
  then show ?case by (auto simp: ucb_after_def ucb_init_inv)
next
  case (Suc n)
  from Suc.prems obtain sg0 where run: "ucb_after env T g n = Inr sg0"
    and step: "ucb_step env n sg0 = Inr sg"
    by (auto simp: ucb_after_def and_then_eq_Inr)
  from Suc.IH [OF run] have inv: "est_inv (K env) (nat T) 1 n (fst sg0)" .
  from ucb_step_Inr [OF step] obtain arm r where r: "r = 0 \<or> r = 1"
    and arm: "arm < length (counts (fst sg0))" and n: "n < length (rewards (fst sg0))"
    and sg: "fst sg = est_next n arm r (fst sg0)"
    by blast
  from inv arm n have "arm < K env" "n < nat T" by (simp_all add: est_inv_def)
  with inv r sg show ?case by (simp add: est_inv_next)
qed

lemma est_inv_arm:
  "est_inv k m c0 n s \<Longrightarrow> a < k \<Longrightarrow>
     counts s ! a = c0 + real (pulls (chosen s) a n) \<and>
     vals s ! a * counts s ! a = reward_sum (rewards s) (chosen s) a n"
  by (auto simp: est_inv_def)

lemma est_inv_trace:
  "est_inv k m c0 n s \<Longrightarrow>
     length (chosen s) = m \<and> length (rewards s) = m \<and> (\<forall>i<n. chosen s ! i < k)"
  by (auto simp: est_inv_def)

lemma est_inv_valid_trace: "est_inv k m c0 m s \<Longrightarrow> valid_trace k m (rewards s, chosen s)"
  by (simp add: est_inv_def valid_trace_def all_set_conv_all_nth)

subsection \<open>\<^verbatim>\<open>thompson_sampling\<close>\<close>

lemma ts_init_inv: "ts_inv k m 0 (ts_init k m)"
  by (simp add: ts_inv_def ts_init_def)

lemma ts_inv_next:
  assumes inv: "ts_inv k m n s" and n: "n < m" and arm: "arm < k" and r: "r = 0 \<or> r = 1"
  shows "ts_inv k m (Suc n) (ts_next n arm r s)"
proof -
  from inv have len: "length (rewards s) = m" "length (chosen s) = m"
      "length (alpha s) = k" "length (beta s) = k"
    and tr: "\<And>i. i < n \<Longrightarrow> chosen s ! i < k \<and> (rewards s ! i = 0 \<or> rewards s ! i = 1)"
    and st: "\<And>a. a < k \<Longrightarrow> 1 \<le> alpha s ! a \<and> 1 \<le> beta s ! a \<and>
            alpha s ! a - 1 = reward_sum (rewards s) (chosen s) a n \<and>
            alpha s ! a + beta s ! a - 2 = real (pulls (chosen s) a n)"
    by (auto simp: ts_inv_def)
  have trace: "chosen (ts_next n arm r s) ! i < k \<and>
      (rewards (ts_next n arm r s) ! i = 0 \<or> rewards (ts_next n arm r s) ! i = 1)"
    if "i < Suc n" for i
  proof (cases "i = n")
    case True
    with n len arm r show ?thesis by (simp add: ts_next_def)
  next
    case False
    with that have "i < n" by simp
    with tr [of i] False show ?thesis by (simp add: ts_next_def)
  qed
  have post: "1 \<le> alpha (ts_next n arm r s) ! a \<and> 1 \<le> beta (ts_next n arm r s) ! a \<and>
      alpha (ts_next n arm r s) ! a - 1 =
        reward_sum (rewards (ts_next n arm r s)) (chosen (ts_next n arm r s)) a (Suc n) \<and>
      alpha (ts_next n arm r s) ! a + beta (ts_next n arm r s) ! a - 2 =
        real (pulls (chosen (ts_next n arm r s)) a (Suc n))"
    if "a < k" for a
    using st [OF that] that n len arm r
    by (auto simp: ts_next_def reward_sum_step pulls_step nth_list_update)
  from len n trace post show ?thesis
    by (simp add: ts_inv_def ts_next_def)
qed

lemma ts_next_intro:
  assumes "record_step (rewards s) (chosen s) t r arm = Inr (rs, ch)"
    and "ts_posterior_update (alpha s) (beta s) arm r = Inr (al, be)"
  shows "arm < length (alpha s) \<and> t < length (rewards s) \<and>
         \<lparr>rewards = rs, chosen = ch, alpha = al, beta = be\<rparr> = ts_next t arm r s"
  using assms
  by (auto simp: ts_posterior_update_eq record_step_eq ts_next_def split: if_splits)

lemma ts_step_Inr:
  assumes "ts_step env t sg = Inr sg'"
  shows "\<exists>arm r. (r = 0 \<or> r = 1) \<and> arm < length (alpha (fst sg)) \<and>
           t < length (rewards (fst sg)) \<and> fst sg' = ts_next t arm r (fst sg)"
proof -
  from assms obtain arm r g1 g2 al be rs ch where
    pl: "pull env (int arm) g1 = Inr (r, g2)" and
    rc: "record_step (rewards (fst sg)) (chosen (fst sg)) t (real_of_int r) arm = Inr (rs, ch)" and
    up: "ts_posterior_update (alpha (fst sg)) (beta (fst sg)) arm (real_of_int r) = Inr (al, be)" and
    sg': "sg' = (\<lparr>rewards = rs, chosen = ch, alpha = al, beta = be\<rparr>, g2)"
    by (auto simp: ts_step_def and_then_eq_Inr)
  from pull_Inr [OF pl] have "real_of_int r = 0 \<or> real_of_int r = 1" by auto
  with ts_next_intro [OF rc up] sg' show ?thesis
    by (intro exI [of _ arm] exI [of _ "real_of_int r"]) simp
qed

lemma ts_after_inv:
  "ts_after env T g n = Inr sg \<Longrightarrow> ts_inv (K env) (nat T) n (fst sg)"
proof (induction n arbitrary: sg)
  case 0
  then show ?case by (auto simp: ts_after_def ts_init_inv)
next
  case (Suc n)
  from Suc.prems obtain sg0 where run: "ts_after env T g n = Inr sg0"
    and step: "ts_step env n sg0 = Inr sg"
    by (auto simp: ts_after_def and_then_eq_Inr)
  from Suc.IH [OF run] have inv: "ts_inv (K env) (nat T) n (fst sg0)" .
  from ts_step_Inr [OF step] obtain arm r where r: "r = 0 \<or> r = 1"
    and arm: "arm < length (alpha (fst sg0))" and n: "n < length (rewards (fst sg0))"
    and sg: "fst sg = ts_next n arm r (fst sg0)"
    by blast
  from inv arm n have "arm < K env" "n < nat T" by (simp_all add: ts_inv_def)
  with inv r sg show ?case by (simp add: ts_inv_next)
qed

lemma ts_inv_valid_trace: "ts_inv k m m s \<Longrightarrow> valid_trace k m (rewards s, chosen s)"
  by (simp add: ts_inv_def valid_trace_def all_set_conv_all_nth)

section \<open>The runs return\<close>

text \<open>
  In an environment with at least one arm and a probability for every arm, no step
  raises: the loops reach every \<open>n \<le> T\<close>, and the three functions return a valid trace.
  Only \<^verbatim>\<open>epsilon_greedy\<close> calls \<^verbatim>\<open>randint\<close>.
\<close>

lemma eg_select_total:
  assumes "0 < k" "length vs = k" "randint_ok k g"
  shows "\<exists>arm g'. eg_select k eps vs g = Inr (arm, g') \<and> arm < k \<and> randint_ok k g'"
proof (cases "shd (rand_draws g) < eps")
  case True
  have "shd (randint_draws g) \<in> sset (randint_draws g)" by (rule shd_sset)
  moreover have "sset (stl (randint_draws g)) \<subseteq> sset (randint_draws g)"
    by (auto intro: stl_sset)
  ultimately show ?thesis using assms True
    by (auto simp: eg_select_def rand_def randint_def randint_ok_def)
next
  case False
  from assms have "vs \<noteq> []" by auto
  from argmax_Inr [OF this] obtain i where "argmax vs = Inr i" "i < length vs" by blast
  with assms False show ?thesis
    by (auto simp: eg_select_def rand_def randint_ok_def)
qed

lemma eg_step_total:
  assumes "0 < K env" "K env \<le> length (ctrs env)" "est_inv (K env) m c0 n s" "n < m"
    and "randint_ok (K env) g"
  shows "\<exists>s' g'. eg_step env eps n (s, g) = Inr (s', g') \<and> randint_ok (K env) g'"
proof -
  from assms(3) have len: "length (rewards s) = m" "length (chosen s) = m"
      "length (counts s) = K env" "length (vals s) = K env"
    by (simp_all add: est_inv_def)
  from eg_select_total [OF assms(1) len(4) assms(5)] obtain arm g1
    where sel: "eg_select (K env) eps (vals s) g = Inr (arm, g1)" "arm < K env"
      "randint_ok (K env) g1"
    by blast
  with assms len show ?thesis
    by (simp add: eg_step_def pull_nat incremental_update_eq record_step_eq randint_ok_def)
qed

lemma eg_after_total:
  assumes "0 < K env" "K env \<le> length (ctrs env)" "randint_ok (K env) g"
  shows "n \<le> nat T \<Longrightarrow> \<exists>s g'. eg_after env T eps g n = Inr (s, g') \<and> randint_ok (K env) g'"
proof (induction n)
  case 0
  with assms show ?case by (simp add: eg_after_def)
next
  case (Suc n)
  then obtain s g' where run: "eg_after env T eps g n = Inr (s, g')"
    and ok: "randint_ok (K env) g'"
    by auto
  from eg_after_inv [OF run] have inv: "est_inv (K env) (nat T) 0 n s" by simp
  from Suc.prems have "n < nat T" by simp
  from eg_step_total [OF assms(1,2) inv this ok] run show ?case
    by (simp add: eg_after_def)
qed

lemma ucb_step_total:
  assumes "0 < K env" "K env \<le> length (ctrs env)" "est_inv (K env) m c0 n s" "n < m"
  shows "\<exists>s' g'. ucb_step env n (s, g) = Inr (s', g')"
proof -
  from assms(3) have len: "length (rewards s) = m" "length (chosen s) = m"
      "length (counts s) = K env" "length (vals s) = K env"
    by (simp_all add: est_inv_def)
  with assms(1) have "ucb_bounds n (vals s) (counts s) \<noteq> []"
    by (auto simp: ucb_bounds_def)
  from argmax_Inr [OF this] obtain arm
    where "argmax (ucb_bounds n (vals s) (counts s)) = Inr arm" "arm < K env"
    using len by (auto simp: ucb_bounds_def)
  with assms len show ?thesis
    by (simp add: ucb_step_def pull_nat incremental_update_eq record_step_eq)
qed

lemma ucb_after_total:
  assumes "0 < K env" "K env \<le> length (ctrs env)"
  shows "n \<le> nat T \<Longrightarrow> \<exists>s g'. ucb_after env T g n = Inr (s, g')"
proof (induction n)
  case 0
  show ?case by (simp add: ucb_after_def)
next
  case (Suc n)
  then obtain s g' where run: "ucb_after env T g n = Inr (s, g')"
    by auto
  from ucb_after_inv [OF run] have inv: "est_inv (K env) (nat T) 1 n s" by simp
  from Suc.prems have "n < nat T" by simp
  from ucb_step_total [OF assms inv this] run show ?case
    by (simp add: ucb_after_def)
qed

lemma ts_step_total:
  assumes "0 < K env" "K env \<le> length (ctrs env)" "ts_inv (K env) m n s" "n < m"
  shows "\<exists>s' g'. ts_step env n (s, g) = Inr (s', g')"
proof -
  from assms(3) have len: "length (rewards s) = m" "length (chosen s) = m"
      "length (alpha s) = K env" "length (beta s) = K env"
    and ge: "\<forall>a<K env. 1 \<le> alpha s ! a \<and> 1 \<le> beta s ! a"
    by (simp_all add: ts_inv_def)
  from ge len have "\<forall>x \<in> set (alpha s). 1 \<le> x" "\<forall>x \<in> set (beta s). 1 \<le> x"
    by (simp_all add: all_set_conv_all_nth)
  from beta_sample_total [OF this, of g] len obtain theta g1
    where bs: "beta_sample (alpha s) (beta s) g = Inr (theta, g1)" "length theta = K env"
    by force
  with assms(1) have "theta \<noteq> []" by auto
  from argmax_Inr [OF this] obtain arm where "argmax theta = Inr arm" "arm < K env"
    using bs by auto
  with assms len bs show ?thesis
    by (simp add: ts_step_def pull_nat ts_posterior_update_eq record_step_eq)
qed

lemma ts_after_total:
  assumes "0 < K env" "K env \<le> length (ctrs env)"
  shows "n \<le> nat T \<Longrightarrow> \<exists>s g'. ts_after env T g n = Inr (s, g')"
proof (induction n)
  case 0
  show ?case by (simp add: ts_after_def)
next
  case (Suc n)
  then obtain s g' where run: "ts_after env T g n = Inr (s, g')"
    by auto
  from ts_after_inv [OF run] have inv: "ts_inv (K env) (nat T) n s" by simp
  from Suc.prems have "n < nat T" by simp
  from ts_step_total [OF assms inv this] run show ?case
    by (simp add: ts_after_def)
qed

lemma epsilon_greedy_total:
  assumes "0 < K env" "K env \<le> length (ctrs env)" "randint_ok (K env) g" "0 \<le> T"
  shows "\<exists>tr g'. epsilon_greedy env T eps g = Inr (tr, g') \<and> valid_trace (K env) (nat T) tr \<and>
           randint_ok (K env) g'"
proof -
  from eg_after_total [OF assms(1-3), of "nat T" T eps] obtain s g'
    where run: "eg_after env T eps g (nat T) = Inr (s, g')" and ok: "randint_ok (K env) g'"
    by auto
  from eg_after_inv [OF run] have "valid_trace (K env) (nat T) (rewards s, chosen s)"
    by (simp add: est_inv_valid_trace)
  with run ok assms(4) show ?thesis by (simp add: epsilon_greedy_def)
qed

lemma ucb1_total:
  assumes "0 < K env" "K env \<le> length (ctrs env)" "0 \<le> T"
  shows "\<exists>tr g'. ucb1 env T g = Inr (tr, g') \<and> valid_trace (K env) (nat T) tr"
proof -
  from ucb_after_total [OF assms(1,2), of "nat T" T g] obtain s g'
    where run: "ucb_after env T g (nat T) = Inr (s, g')"
    by auto
  from ucb_after_inv [OF run] have "valid_trace (K env) (nat T) (rewards s, chosen s)"
    by (simp add: est_inv_valid_trace)
  with run assms(3) show ?thesis by (simp add: ucb1_def)
qed

lemma thompson_sampling_total:
  assumes "0 < K env" "K env \<le> length (ctrs env)" "0 \<le> T"
  shows "\<exists>tr g'. thompson_sampling env T g = Inr (tr, g') \<and> valid_trace (K env) (nat T) tr"
proof -
  from ts_after_total [OF assms(1,2), of "nat T" T g] obtain s g'
    where run: "ts_after env T g (nat T) = Inr (s, g')"
    by auto
  from ts_after_inv [OF run] have "valid_trace (K env) (nat T) (rewards s, chosen s)"
    by (simp add: ts_inv_valid_trace)
  with run assms(3) show ?thesis by (simp add: thompson_sampling_def)
qed

lemma run_simulation_with_result:
  assumes "data \<noteq> []" and "0 \<le> T" and "randint_ok (length data) g"
  shows "\<exists>eg_r ucb_r ts_r g'.
           length eg_r = nat T \<and> length ucb_r = nat T \<and> length ts_r = nat T \<and>
           run_simulation_with T data g =
             Inr (\<lparr>eg = cumsum eg_r, ucb = cumsum ucb_r, ts = cumsum ts_r,
                   reg_eg = cumsum (map (\<lambda>r. Max (set (map snd data)) - r) eg_r),
                   reg_ucb = cumsum (map (\<lambda>r. Max (set (map snd data)) - r) ucb_r),
                   reg_ts = cumsum (map (\<lambda>r. Max (set (map snd data)) - r) ts_r),
                   res_ads = map fst data, expected = map snd data\<rparr>, g')"
proof -
  define env where "env = AdBandit_init (map fst data) (map snd data)"
  from assms(1) have k: "0 < K env" "K env \<le> length (ctrs env)" and kd: "K env = length data"
    by (simp_all add: env_def AdBandit_init_def)
  from assms(3) kd have ok: "randint_ok (K env) g" by simp
  from epsilon_greedy_total [OF k ok assms(2), of "1 / 10"] obtain tr1 g1
    where r1: "epsilon_greedy env T (1 / 10) g = Inr (tr1, g1)" "valid_trace (K env) (nat T) tr1"
    by blast
  from ucb1_total [OF k assms(2), of g1] obtain tr2 g2
    where r2: "ucb1 env T g1 = Inr (tr2, g2)" "valid_trace (K env) (nat T) tr2"
    by blast
  from thompson_sampling_total [OF k assms(2), of g2] obtain tr3 g3
    where r3: "thompson_sampling env T g2 = Inr (tr3, g3)" "valid_trace (K env) (nat T) tr3"
    by blast
  from assms(1) have mx: "np_max (expected_rewards env) = Inr (Max (set (map snd data)))"
    by (simp add: expected_rewards_def env_def AdBandit_init_def np_max_Max)
  have len: "length (fst tr1) = nat T" "length (fst tr2) = nat T" "length (fst tr3) = nat T"
    using r1(2) r2(2) r3(2) by (simp_all add: valid_trace_def)
  have "run_simulation_with T data g =
      Inr (\<lparr>eg = cumsum (fst tr1), ucb = cumsum (fst tr2), ts = cumsum (fst tr3),
            reg_eg = cumsum (map (\<lambda>r. Max (set (map snd data)) - r) (fst tr1)),
            reg_ucb = cumsum (map (\<lambda>r. Max (set (map snd data)) - r) (fst tr2)),
            reg_ts = cumsum (map (\<lambda>r. Max (set (map snd data)) - r) (fst tr3)),
            res_ads = map fst data, expected = map snd data\<rparr>, g3)"
    using r1(1) r2(1) r3(1) mx
    by (simp add: run_simulation_with_def env_def [symmetric] split_beta)
  with len show ?thesis by blast
qed

text \<open>
  The method as the source has it, with its horizon 5000: the last entries of the series
  have the index 4999.
\<close>

lemma run_simulation_last_step:
  assumes "data \<noteq> []" and "randint_ok (length data) g"
  shows "\<exists>res g'. run_simulation data g = Inr (res, g') \<and>
           length (eg res) = 5000 \<and> length (reg_eg res) = 5000 \<and>
           reg_eg res ! 4999 = 5000 * Max (set (map snd data)) - eg res ! 4999 \<and>
           reg_ucb res ! 4999 = 5000 * Max (set (map snd data)) - ucb res ! 4999 \<and>
           reg_ts res ! 4999 = 5000 * Max (set (map snd data)) - ts res ! 4999"
proof -
  have t: "(0::int) \<le> 5000" by simp
  from run_simulation_with_result [OF assms(1) t assms(2)] obtain eg_r ucb_r ts_r g' res
    where len: "length eg_r = 5000" "length ucb_r = 5000" "length ts_r = 5000"
      and run: "run_simulation_with 5000 data g = Inr (res, g')"
      and res: "res = \<lparr>eg = cumsum eg_r, ucb = cumsum ucb_r, ts = cumsum ts_r,
                   reg_eg = cumsum (map (\<lambda>r. Max (set (map snd data)) - r) eg_r),
                   reg_ucb = cumsum (map (\<lambda>r. Max (set (map snd data)) - r) ucb_r),
                   reg_ts = cumsum (map (\<lambda>r. Max (set (map snd data)) - r) ts_r),
                   res_ads = map fst data, expected = map snd data\<rparr>"
    by auto
  have "real (Suc 4999) = 5000" by simp
  with len run show ?thesis
    by (intro exI [of _ res] exI [of _ g']) (simp add: res regret_nth run_simulation_def)
qed

section \<open>Degenerate configurations\<close>

lemma eg_after_no_arms: "K env = 0 \<Longrightarrow> eg_after env T eps g 1 = Inl ValueError"
  by (simp add: eg_after_def eg_step_def eg_select_def eg_init_def rand_def randint_def)

lemma ucb_after_no_arms: "K env = 0 \<Longrightarrow> ucb_after env T g 1 = Inl ValueError"
  by (simp add: ucb_after_def ucb_step_def ucb_init_def ucb_bounds_def)

lemma ts_after_no_arms: "K env = 0 \<Longrightarrow> ts_after env T g 1 = Inl ValueError"
  by (simp add: ts_after_def ts_step_def ts_init_def beta_sample_def)

lemma no_arms_raise:
  assumes "K env = 0" and "1 \<le> T"
  shows "epsilon_greedy env T eps g = Inl ValueError"
    and "ucb1 env T g = Inl ValueError"
    and "thompson_sampling env T g = Inl ValueError"
proof -
  from assms(2) have t: "1 \<le> nat T" "\<not> T < 0" by simp_all
  from eg_after_no_arms [OF assms(1)] have "for_range 1 (eg_step env eps) (eg_init (K env) (nat T), g) = Inl ValueError"
    by (simp add: eg_after_def)
  from for_range_Inl [OF this t(1)] t(2) show "epsilon_greedy env T eps g = Inl ValueError"
    by (simp add: epsilon_greedy_def eg_after_def)
  from ucb_after_no_arms [OF assms(1)] have "for_range 1 (ucb_step env) (ucb_init (K env) (nat T), g) = Inl ValueError"
    by (simp add: ucb_after_def)
  from for_range_Inl [OF this t(1)] t(2) show "ucb1 env T g = Inl ValueError"
    by (simp add: ucb1_def ucb_after_def)
  from ts_after_no_arms [OF assms(1)] have "for_range 1 (ts_step env) (ts_init (K env) (nat T), g) = Inl ValueError"
    by (simp add: ts_after_def)
  from for_range_Inl [OF this t(1)] t(2) show "thompson_sampling env T g = Inl ValueError"
    by (simp add: thompson_sampling_def ts_after_def)
qed

lemma zero_horizon:
  "epsilon_greedy env 0 eps g = Inr (([], []), g)"
  "ucb1 env 0 g = Inr (([], []), g)"
  "thompson_sampling env 0 g = Inr (([], []), g)"
  by (simp_all add: epsilon_greedy_def eg_after_def eg_init_def ucb1_def ucb_after_def ucb_init_def
      thompson_sampling_def ts_after_def ts_init_def)

section \<open>Concrete runs\<close>

text \<open>
  The model run on \<open>example_env\<close> with \<open>example_rng\<close>. \<^verbatim>\<open>epsilon_greedy\<close> explores in
  its first step (the draw \<open>1/20\<close> is below \<open>1/10\<close>), gets arm 1 from \<^verbatim>\<open>randint\<close> and stays
  there. \<^verbatim>\<open>ucb1\<close> starts with arm 0 and sees a click: the count becomes 2 and the estimate
  \<open>1/2\<close>.
\<close>

lemma example_env_simps:
  "K example_env = 2" "ctrs example_env = [1 / 5, 9 / 10]" "ads example_env = [''A'', ''B'']"
  by (simp_all add: example_env_def example_data_def AdBandit_init_def)

lemma example_rng_ok: "randint_ok 2 example_rng" "rand_ok example_rng"
  by (simp_all add: randint_ok_def rand_ok_def example_rng_def)

lemmas run_simps =
  epsilon_greedy_def ucb1_def thompson_sampling_def
  eg_after_def eg_step_def eg_select_def eg_init_def randint_def
  ucb_after_def ucb_step_def ucb_bounds_def ucb_init_def
  ts_after_def ts_step_def ts_init_def
  pull_nat incremental_update_eq ts_posterior_update_eq record_step_eq
  rand_def argmax_def beta_sample_def eval_nat_numeral

lemma eg_example_run:
  "eg_after example_env 2 (1 / 10) example_rng 2 =
     Inr (\<lparr>rewards = [1, 1], chosen = [1, 1], counts = [0, 2], vals = [0, 1]\<rparr>,
          \<lparr>rand_draws = sconst (1 / 2), randint_draws = sconst 1, beta_draws = sconst (1 / 2)\<rparr>)"
  by (simp add: run_simps example_env_simps example_rng_def)

lemma ucb_example_run:
  "ucb_after example_env 2 example_rng 1 =
     Inr (\<lparr>rewards = [1, 0], chosen = [0, 0], counts = [2, 1], vals = [1 / 2, 0]\<rparr>,
          \<lparr>rand_draws = sconst (1 / 2), randint_draws = sconst 1, beta_draws = sconst (1 / 2)\<rparr>)"
  by (simp add: run_simps example_env_simps example_rng_def)

lemma ts_example_run:
  "ts_after example_env 2 example_rng 2 =
     Inr (\<lparr>rewards = [1, 0], chosen = [0, 0], alpha = [2, 1], beta = [2, 1]\<rparr>,
          \<lparr>rand_draws = sconst (1 / 2), randint_draws = sconst 1, beta_draws = sconst (1 / 2)\<rparr>)"
  by (simp add: run_simps example_env_simps example_rng_def)

section \<open>Claims\<close>

text \<open>
  C1. For an environment with \<open>K \<ge> 1\<close> arms (and as many probabilities) and a horizon
  \<open>T \<ge> 1\<close>, each of \<^verbatim>\<open>epsilon_greedy\<close>, \<^verbatim>\<open>ucb1\<close> and \<^verbatim>\<open>thompson_sampling\<close> returns, and
  what it returns is a trace of exactly \<open>T\<close> entries in which every reward is 0 or 1 and
  every arm index lies in \<open>[0, K)\<close>. \<^verbatim>\<open>randint(K)\<close> is taken to return values below \<open>K\<close>,
  as numpy documents; \<open>eps\<close> and the probabilities are arbitrary reals.
\<close>

theorem traces_well_formed:
  assumes "1 \<le> K env" and "length (ctrs env) = K env" and "1 \<le> T" and "randint_ok (K env) g"
  shows "(\<exists>tr g'. epsilon_greedy env T eps g = Inr (tr, g') \<and> valid_trace (K env) (nat T) tr) \<and>
         (\<exists>tr g'. ucb1 env T g = Inr (tr, g') \<and> valid_trace (K env) (nat T) tr) \<and>
         (\<exists>tr g'. thompson_sampling env T g = Inr (tr, g') \<and> valid_trace (K env) (nat T) tr)"
proof -
  from assms have k: "0 < K env" "K env \<le> length (ctrs env)" and t: "0 \<le> T"
    by simp_all
  from epsilon_greedy_total [OF k assms(4) t, of eps] ucb1_total [OF k t, of g]
    thompson_sampling_total [OF k t, of g]
  show ?thesis by blast
qed

theorem traces_well_formed_witness:
  "1 \<le> K example_env \<and> length (ctrs example_env) = K example_env \<and> (1::int) \<le> 3 \<and>
   randint_ok (K example_env) example_rng \<and>
   (\<exists>tr g'. epsilon_greedy example_env 3 (1 / 10) example_rng = Inr (tr, g') \<and>
      valid_trace (K example_env) (nat 3) tr) \<and>
   (\<exists>tr g'. ucb1 example_env 3 example_rng = Inr (tr, g') \<and> valid_trace (K example_env) (nat 3) tr) \<and>
   (\<exists>tr g'. thompson_sampling example_env 3 example_rng = Inr (tr, g') \<and>
      valid_trace (K example_env) (nat 3) tr)"
proof -
  have h: "1 \<le> K example_env" "length (ctrs example_env) = K example_env" "(1::int) \<le> 3"
    "randint_ok (K example_env) example_rng"
    by (simp_all add: example_env_simps example_rng_ok)
  from traces_well_formed [OF h, of "1 / 10"] h show ?thesis by blast
qed

text \<open>
  C2. In a run of \<^verbatim>\<open>epsilon_greedy\<close>, after each of its steps (\<open>n \<le> T\<close> of them done) and
  for every arm \<open>a\<close>: \<open>counts[a]\<close> is the number of times \<open>a\<close> has been pulled, and if
  it is positive then \<open>values[a]\<close> is the sum of the rewards seen on \<open>a\<close> divided by that
  number, that is their arithmetic mean.
\<close>

theorem eg_incremental_mean:
  assumes "1 \<le> K env" and "length (ctrs env) = K env" and "randint_ok (K env) g"
    and "n \<le> nat T" and "a < K env"
  shows "\<exists>s g'. eg_after env T eps g n = Inr (s, g') \<and>
           counts s ! a = real (pulls (chosen s) a n) \<and>
           (0 < counts s ! a \<longrightarrow>
              vals s ! a = reward_sum (rewards s) (chosen s) a n / real (pulls (chosen s) a n))"
proof -
  from assms have k: "0 < K env" "K env \<le> length (ctrs env)" by simp_all
  from eg_after_total [OF k assms(3,4), of eps] obtain s g'
    where run: "eg_after env T eps g n = Inr (s, g')"
    by blast
  from eg_after_inv [OF run] have "est_inv (K env) (nat T) 0 n s" by simp
  note arm = est_inv_arm [OF this assms(5)]
  from arm have c: "counts s ! a = real (pulls (chosen s) a n)" by simp
  from arm have v: "vals s ! a * counts s ! a = reward_sum (rewards s) (chosen s) a n" by blast
  have "vals s ! a = reward_sum (rewards s) (chosen s) a n / real (pulls (chosen s) a n)"
    if "0 < counts s ! a"
    using that c v by (simp add: field_simps)
  with run c show ?thesis by blast
qed

theorem eg_incremental_mean_witness:
  "1 \<le> K example_env \<and> length (ctrs example_env) = K example_env \<and>
   randint_ok (K example_env) example_rng \<and> (2::nat) \<le> nat 2 \<and> (1::nat) < K example_env \<and>
   (\<exists>s g'. eg_after example_env 2 (1 / 10) example_rng 2 = Inr (s, g') \<and>
      counts s ! 1 = real (pulls (chosen s) 1 2) \<and>
      (0 < counts s ! 1 \<longrightarrow>
         vals s ! 1 = reward_sum (rewards s) (chosen s) 1 2 / real (pulls (chosen s) 1 2)))"
proof -
  have h: "1 \<le> K example_env" "length (ctrs example_env) = K example_env"
    "randint_ok (K example_env) example_rng" "(2::nat) \<le> nat 2" "(1::nat) < K example_env"
    by (simp_all add: example_env_simps example_rng_ok)
  from eg_incremental_mean [OF h, of "1 / 10"] h show ?thesis by blast
qed



text \<open>
  C4, as the code has it. Nothing validates a configuration. A horizon \<open>T < 0\<close> makes each
  algorithm raise \<^verbatim>\<open>ValueError\<close> on entry, and an environment without arms makes each
  algorithm raise \<^verbatim>\<open>ValueError\<close> when \<open>T \<ge> 1\<close>. A horizon \<open>T = 0\<close> is accepted and gives
  the empty trace. With \<open>K \<ge> 1\<close> arms and \<open>T \<ge> 0\<close> every run completes all \<open>T\<close> steps
  with a valid trace, whatever real numbers \<open>eps\<close> and the probabilities are, also
  outside \<open>[0, 1]\<close>.
\<close>

theorem configuration_not_validated:
  "(T < 0 \<longrightarrow>
      epsilon_greedy env T eps g = Inl ValueError \<and> ucb1 env T g = Inl ValueError \<and>
      thompson_sampling env T g = Inl ValueError) \<and>
   (K env = 0 \<and> 1 \<le> T \<longrightarrow>
      epsilon_greedy env T eps g = Inl ValueError \<and> ucb1 env T g = Inl ValueError \<and>
      thompson_sampling env T g = Inl ValueError) \<and>
   (epsilon_greedy env 0 eps g = Inr (([], []), g) \<and> ucb1 env 0 g = Inr (([], []), g) \<and>
      thompson_sampling env 0 g = Inr (([], []), g)) \<and>
   (1 \<le> K env \<and> length (ctrs env) = K env \<and> 0 \<le> T \<and> randint_ok (K env) g \<longrightarrow>
      (\<exists>tr g'. epsilon_greedy env T eps g = Inr (tr, g') \<and> valid_trace (K env) (nat T) tr) \<and>
      (\<exists>tr g'. ucb1 env T g = Inr (tr, g') \<and> valid_trace (K env) (nat T) tr) \<and>
      (\<exists>tr g'. thompson_sampling env T g = Inr (tr, g') \<and> valid_trace (K env) (nat T) tr))"
proof (intro conjI impI)
  assume "T < 0"
  then show "epsilon_greedy env T eps g = Inl ValueError" "ucb1 env T g = Inl ValueError"
    "thompson_sampling env T g = Inl ValueError"
    by (simp_all add: epsilon_greedy_def ucb1_def thompson_sampling_def)
next
  assume "K env = 0 \<and> 1 \<le> T"
  then show "epsilon_greedy env T eps g = Inl ValueError" "ucb1 env T g = Inl ValueError"
    "thompson_sampling env T g = Inl ValueError"
    by (simp_all add: no_arms_raise)
next
  show "epsilon_greedy env 0 eps g = Inr (([], []), g)" "ucb1 env 0 g = Inr (([], []), g)"
    "thompson_sampling env 0 g = Inr (([], []), g)"
    by (rule zero_horizon)+
next
  assume a: "1 \<le> K env \<and> length (ctrs env) = K env \<and> 0 \<le> T \<and> randint_ok (K env) g"
  then have k: "0 < K env" "K env \<le> length (ctrs env)" and t: "0 \<le> T"
    and ok: "randint_ok (K env) g"
    by simp_all
  from epsilon_greedy_total [OF k ok t, of eps]
  show "\<exists>tr g'. epsilon_greedy env T eps g = Inr (tr, g') \<and> valid_trace (K env) (nat T) tr"
    by blast
  from ucb1_total [OF k t, of g]
  show "\<exists>tr g'. ucb1 env T g = Inr (tr, g') \<and> valid_trace (K env) (nat T) tr" .
  from thompson_sampling_total [OF k t, of g]
  show "\<exists>tr g'. thompson_sampling env T g = Inr (tr, g') \<and> valid_trace (K env) (nat T) tr" .
qed

theorem configuration_not_validated_witness:
  "(- 1 :: int) < 0 \<and> epsilon_greedy example_env (- 1) (1 / 10) example_rng = Inl ValueError \<and>
   K (AdBandit_init [] []) = 0 \<and> (1::int) \<le> 1 \<and>
   epsilon_greedy (AdBandit_init [] []) 1 (1 / 10) example_rng = Inl ValueError \<and>
   1 \<le> K (AdBandit_init [''A''] [3 / 2]) \<and>
   length (ctrs (AdBandit_init [''A''] [3 / 2])) = K (AdBandit_init [''A''] [3 / 2]) \<and>
   (0::int) \<le> 1 \<and> randint_ok (K (AdBandit_init [''A''] [3 / 2])) (const_rng (1 / 2) 0 (1 / 2)) \<and>
   (\<exists>tr g'. epsilon_greedy (AdBandit_init [''A''] [3 / 2]) 1 2 (const_rng (1 / 2) 0 (1 / 2)) = Inr (tr, g') \<and>
      valid_trace (K (AdBandit_init [''A''] [3 / 2])) (nat 1) tr)"
proof -
  have h: "(- 1 :: int) < 0" "K (AdBandit_init [] []) = 0" "(1::int) \<le> 1"
    "1 \<le> K (AdBandit_init [''A''] [3 / 2])"
    "length (ctrs (AdBandit_init [''A''] [3 / 2])) = K (AdBandit_init [''A''] [3 / 2])"
    "(0::int) \<le> 1" "randint_ok (K (AdBandit_init [''A''] [3 / 2])) (const_rng (1 / 2) 0 (1 / 2))"
    by (simp_all add: AdBandit_init_def randint_ok_def const_rng_def)
  from configuration_not_validated [of "- 1" example_env "1 / 10" example_rng]
    configuration_not_validated [of 1 "AdBandit_init [] []" "1 / 10" example_rng]
    configuration_not_validated [of 1 "AdBandit_init [''A''] [3 / 2]" 2 "const_rng (1 / 2) 0 (1 / 2)"]
    h
  show ?thesis by blast
qed

text \<open>
  C4 as the specification states it fails: with \<open>eps = 2\<close> and the probability \<open>3/2\<close>
  \<^verbatim>\<open>epsilon_greedy\<close> runs its step and returns a trace, and with \<open>T = 0\<close> it returns the
  empty trace.
\<close>

theorem malformed_configuration_runs_counterexample:
  "epsilon_greedy (AdBandit_init [''A''] [3 / 2]) 1 2 (const_rng (1 / 2) 0 (1 / 2)) =
     Inr (([1], [0]), const_rng (1 / 2) 0 (1 / 2)) \<and>
   epsilon_greedy (AdBandit_init [''A''] [1 / 2]) 0 (1 / 10) (const_rng (1 / 2) 0 (1 / 2)) =
     Inr (([], []), const_rng (1 / 2) 0 (1 / 2))"
  by (simp add: epsilon_greedy_def eg_after_def eg_step_def eg_select_def eg_init_def randint_def
      AdBandit_init_def const_rng_def pull_nat incremental_update_eq record_step_eq rand_def)

text \<open>
  C5, as the code has it. A step changes the cumulative regret by the optimal probability
  minus the reward of that step: for \<open>t + 1 < T\<close>, \<open>regret[t] \<le> regret[t + 1]\<close> holds
  exactly when the reward of step \<open>t + 1\<close>, which is \<open>clicks[t + 1] - clicks[t]\<close>, is at
  most the optimal probability.
\<close>

theorem regret_step_change:
  assumes "data \<noteq> []" and "1 \<le> T" and "randint_ok (length data) g"
  shows "\<exists>res g'. run_simulation_with T data g = Inr (res, g') \<and>
           (\<forall>t. t + 1 < nat T \<longrightarrow>
              (reg_eg res ! t \<le> reg_eg res ! (t + 1)) =
                (eg res ! (t + 1) - eg res ! t \<le> Max (set (map snd data))) \<and>
              (reg_ucb res ! t \<le> reg_ucb res ! (t + 1)) =
                (ucb res ! (t + 1) - ucb res ! t \<le> Max (set (map snd data))) \<and>
              (reg_ts res ! t \<le> reg_ts res ! (t + 1)) =
                (ts res ! (t + 1) - ts res ! t \<le> Max (set (map snd data))))"
proof -
  from assms(2) have t: "0 \<le> T" by simp
  from run_simulation_with_result [OF assms(1) t assms(3)] obtain eg_r ucb_r ts_r g' res
    where len: "length eg_r = nat T" "length ucb_r = nat T" "length ts_r = nat T"
      and run: "run_simulation_with T data g = Inr (res, g')"
      and res: "res = \<lparr>eg = cumsum eg_r, ucb = cumsum ucb_r, ts = cumsum ts_r,
                   reg_eg = cumsum (map (\<lambda>r. Max (set (map snd data)) - r) eg_r),
                   reg_ucb = cumsum (map (\<lambda>r. Max (set (map snd data)) - r) ucb_r),
                   reg_ts = cumsum (map (\<lambda>r. Max (set (map snd data)) - r) ts_r),
                   res_ads = map fst data, expected = map snd data\<rparr>"
    by blast
  have step: "(cumsum (map (\<lambda>r. c - r) rs) ! t \<le> cumsum (map (\<lambda>r. c - r) rs) ! (t + 1)) =
      (cumsum rs ! (t + 1) - cumsum rs ! t \<le> c)"
    if "t + 1 < length rs" for rs :: "real list" and c t
    using regret_step [of t rs c] that by auto
  from len step run show ?thesis
    by (intro exI [of _ res] exI [of _ g']) (simp add: res)
qed

theorem regret_step_change_witness:
  "example_data \<noteq> [] \<and> (1::int) \<le> 2 \<and> randint_ok (length example_data) example_rng \<and>
   (\<exists>res g'. run_simulation_with 2 example_data example_rng = Inr (res, g') \<and>
      (reg_eg res ! 0 \<le> reg_eg res ! (0 + 1)) =
         (eg res ! (0 + 1) - eg res ! 0 \<le> Max (set (map snd example_data))))"
proof -
  have h: "example_data \<noteq> []" "(1::int) \<le> 2" "randint_ok (length example_data) example_rng"
    by (simp_all add: example_data_def randint_ok_def example_rng_def)
  have "(0::nat) + 1 < nat 2" by simp
  with regret_step_change [OF h] h show ?thesis by blast
qed

text \<open>
  C5 as the specification states it fails: one arm of probability \<open>1/2\<close>, no click in
  step 0 and a click in step 1 give \<^verbatim>\<open>epsilon_greedy\<close> the regret series \<open>1/2, 0\<close>.
\<close>

theorem regret_decreases_counterexample:
  "map_sum id (reg_eg \<circ> fst)
     (run_simulation_with 2 [(''A'', 1 / 2)]
        \<lparr>rand_draws = [9 / 10, 9 / 10, 9 / 10, 1 / 10] @- sconst (9 / 10),
         randint_draws = sconst 0, beta_draws = sconst (1 / 2)\<rparr>) = Inr [1 / 2, 0]"
  by (simp add: run_simulation_with_def epsilon_greedy_def ucb1_def thompson_sampling_def
      np_max_def expected_rewards_def cumsum_def
      eg_after_def eg_step_def eg_select_def eg_init_def randint_def
      ucb_after_def ucb_step_def ucb_bounds_def ucb_init_def
      ts_after_def ts_step_def ts_init_def
      AdBandit_init_def pull_nat incremental_update_eq ts_posterior_update_eq record_step_eq
      rand_def argmax_def beta_sample_def eval_nat_numeral)

text \<open>
  C6, as the code has it. For an arm index \<open>\<ge> K\<close> or \<open>< -K\<close>, \<open>pull\<close> raises
  \<^verbatim>\<open>IndexError\<close>. An index in \<open>[-K, 0)\<close> is not rejected: it counts from the end of
  the array of probabilities, so that \<open>pull(arm)\<close> is \<open>pull(arm + K)\<close> and returns a
  reward 0 or 1.
\<close>

theorem pull_index_range:
  assumes "length (ctrs env) = K env"
  shows "(arm < - int (K env) \<or> int (K env) \<le> arm \<longrightarrow> pull env arm g = Inl IndexError) \<and>
         (- int (K env) \<le> arm \<and> arm < 0 \<longrightarrow>
            pull env arm g = pull env (arm + int (K env)) g \<and>
            (\<exists>r g'. pull env arm g = Inr (r, g') \<and> (r = 0 \<or> r = 1)))"
  using assms by (auto simp: pull_def rand_def getitem_def Let_def)

theorem pull_index_range_witness:
  "length (ctrs example_env) = K example_env \<and>
   int (K example_env) \<le> 2 \<and> pull example_env 2 example_rng = Inl IndexError \<and>
   (- 3 :: int) < - int (K example_env) \<and> pull example_env (- 3) example_rng = Inl IndexError \<and>
   - int (K example_env) \<le> - 1 \<and> (- 1 :: int) < 0 \<and>
   pull example_env (- 1) example_rng = pull example_env (- 1 + int (K example_env)) example_rng \<and>
   (\<exists>r g'. pull example_env (- 1) example_rng = Inr (r, g') \<and> (r = 0 \<or> r = 1))"
proof -
  have h: "length (ctrs example_env) = K example_env" "int (K example_env) \<le> 2"
    "(- 3 :: int) < - int (K example_env)" "- int (K example_env) \<le> - 1" "(- 1 :: int) < 0"
    by (simp_all add: example_env_simps)
  from pull_index_range [OF h(1), of 2 example_rng] pull_index_range [OF h(1), of "- 3" example_rng]
    pull_index_range [OF h(1), of "- 1" example_rng] h
  show ?thesis by blast
qed

text \<open>
  C6 as the specification states it fails: with two arms, \<open>pull(-1)\<close> returns the
  reward 1 of the last arm.
\<close>

theorem pull_negative_index_counterexample:
  "pull (AdBandit_init [''A'', ''B''] [0, 1]) (- 1) (const_rng (1 / 2) 0 (1 / 2)) =
     Inr (1, const_rng (1 / 2) 0 (1 / 2))"
  by (simp add: pull_def rand_def getitem_def AdBandit_init_def const_rng_def)

text \<open>
  C7. For \<open>T \<ge> 1\<close> and an environment with exactly one arm, \<^verbatim>\<open>ucb1\<close> returns, it chose
  arm 0 in every step, and \<open>counts[0]\<close> is \<open>T + 1\<close> when its loop ends.
\<close>

theorem ucb1_single_arm:
  assumes "K env = 1" and "length (ctrs env) = 1" and "1 \<le> T"
  shows "\<exists>s g'. ucb_after env T g (nat T) = Inr (s, g') \<and>
           ucb1 env T g = Inr ((rewards s, chosen s), g') \<and>
           length (chosen s) = nat T \<and> (\<forall>t<nat T. chosen s ! t = 0) \<and>
           counts s ! 0 = real_of_int T + 1"
proof -
  from assms have k: "0 < K env" "K env \<le> length (ctrs env)" by simp_all
  from ucb_after_total [OF k, of "nat T" T g] obtain s g'
    where run: "ucb_after env T g (nat T) = Inr (s, g')"
    by auto
  from ucb_after_inv [OF run] assms(1) have inv: "est_inv 1 (nat T) 1 (nat T) s" by simp
  from est_inv_trace [OF inv]
  have len: "length (chosen s) = nat T" and ch: "\<forall>t<nat T. chosen s ! t = 0"
    by simp_all
  from est_inv_arm [OF inv, of 0]
  have c: "counts s ! 0 = 1 + real (pulls (chosen s) 0 (nat T))"
    by simp
  from ch have "pulls (chosen s) 0 (nat T) = nat T" by (rule pulls_all)
  with c assms(3) have "counts s ! 0 = real_of_int T + 1" by simp
  with run len ch assms(3) show ?thesis by (simp add: ucb1_def)
qed

theorem ucb1_single_arm_witness:
  "K (AdBandit_init [''A''] [1 / 2]) = 1 \<and> length (ctrs (AdBandit_init [''A''] [1 / 2])) = 1 \<and>
   (1::int) \<le> 3 \<and>
   (\<exists>s g'. ucb_after (AdBandit_init [''A''] [1 / 2]) 3 example_rng (nat 3) = Inr (s, g') \<and>
      ucb1 (AdBandit_init [''A''] [1 / 2]) 3 example_rng = Inr ((rewards s, chosen s), g') \<and>
      length (chosen s) = nat 3 \<and> (\<forall>t<nat 3. chosen s ! t = 0) \<and>
      counts s ! 0 = real_of_int 3 + 1)"
proof -
  have h: "K (AdBandit_init [''A''] [1 / 2]) = 1" "length (ctrs (AdBandit_init [''A''] [1 / 2])) = 1"
    "(1::int) \<le> 3"
    by (simp_all add: AdBandit_init_def)
  from ucb1_single_arm [OF h, of example_rng] h show ?thesis by blast
qed

text \<open>
  C8. In a run of \<^verbatim>\<open>ucb1\<close>, after each of its steps and for every arm \<open>a\<close>:
  \<open>counts[a]\<close> is the number of pulls of \<open>a\<close> plus 1, and \<open>values[a]\<close> is the sum of the
  rewards seen on \<open>a\<close> divided by the number of pulls plus 1.
\<close>

theorem ucb1_phantom_observation:
  assumes "1 \<le> K env" and "length (ctrs env) = K env" and "n \<le> nat T" and "a < K env"
  shows "\<exists>s g'. ucb_after env T g n = Inr (s, g') \<and>
           counts s ! a = real (pulls (chosen s) a n) + 1 \<and>
           vals s ! a = reward_sum (rewards s) (chosen s) a n / (real (pulls (chosen s) a n) + 1)"
proof -
  from assms have k: "0 < K env" "K env \<le> length (ctrs env)" by simp_all
  from ucb_after_total [OF k assms(3), of g] obtain s g'
    where run: "ucb_after env T g n = Inr (s, g')"
    by blast
  from ucb_after_inv [OF run] have "est_inv (K env) (nat T) 1 n s" by simp
  note arm = est_inv_arm [OF this assms(4)]
  from arm have c: "counts s ! a = 1 + real (pulls (chosen s) a n)" by blast
  from arm have v: "vals s ! a * counts s ! a = reward_sum (rewards s) (chosen s) a n" by blast
  from c have "0 < counts s ! a" by simp
  with c v have "vals s ! a = reward_sum (rewards s) (chosen s) a n / (real (pulls (chosen s) a n) + 1)"
    by (simp add: field_simps)
  with run c show ?thesis by auto
qed

theorem ucb1_phantom_observation_witness:
  "1 \<le> K example_env \<and> length (ctrs example_env) = K example_env \<and> (1::nat) \<le> nat 2 \<and>
   (0::nat) < K example_env \<and>
   (\<exists>s g'. ucb_after example_env 2 example_rng 1 = Inr (s, g') \<and>
      counts s ! 0 = real (pulls (chosen s) 0 1) + 1 \<and>
      vals s ! 0 = reward_sum (rewards s) (chosen s) 0 1 / (real (pulls (chosen s) 0 1) + 1))"
proof -
  have h: "1 \<le> K example_env" "length (ctrs example_env) = K example_env"
    "(1::nat) \<le> nat 2" "(0::nat) < K example_env"
    by (simp_all add: example_env_simps)
  from ucb1_phantom_observation [OF h, of example_rng] h show ?thesis by blast
qed

text \<open>
  C9. In a run of \<^verbatim>\<open>thompson_sampling\<close>, after each of its steps and for every arm \<open>a\<close>:
  \<open>alpha[a] \<ge> 1\<close>, \<open>beta[a] \<ge> 1\<close>, \<open>alpha[a] - 1\<close> is the sum of the rewards collected on
  \<open>a\<close>, and \<open>alpha[a] + beta[a] - 2\<close> is the number of times \<open>a\<close> was chosen.
\<close>

theorem thompson_posterior_counts:
  assumes "1 \<le> K env" and "length (ctrs env) = K env" and "n \<le> nat T" and "a < K env"
  shows "\<exists>s g'. ts_after env T g n = Inr (s, g') \<and>
           1 \<le> alpha s ! a \<and> 1 \<le> beta s ! a \<and>
           alpha s ! a - 1 = reward_sum (rewards s) (chosen s) a n \<and>
           alpha s ! a + beta s ! a - 2 = real (pulls (chosen s) a n)"
proof -
  from assms have k: "0 < K env" "K env \<le> length (ctrs env)" by simp_all
  from ts_after_total [OF k assms(3), of g] obtain s g'
    where run: "ts_after env T g n = Inr (s, g')"
    by blast
  from ts_after_inv [OF run] assms(4) run show ?thesis
    by (auto simp: ts_inv_def)
qed

theorem thompson_posterior_counts_witness:
  "1 \<le> K example_env \<and> length (ctrs example_env) = K example_env \<and> (2::nat) \<le> nat 2 \<and>
   (0::nat) < K example_env \<and>
   (\<exists>s g'. ts_after example_env 2 example_rng 2 = Inr (s, g') \<and>
      1 \<le> alpha s ! 0 \<and> 1 \<le> beta s ! 0 \<and>
      alpha s ! 0 - 1 = reward_sum (rewards s) (chosen s) 0 2 \<and>
      alpha s ! 0 + beta s ! 0 - 2 = real (pulls (chosen s) 0 2))"
proof -
  have h: "1 \<le> K example_env" "length (ctrs example_env) = K example_env"
    "(2::nat) \<le> nat 2" "(0::nat) < K example_env"
    by (simp_all add: example_env_simps)
  from thompson_posterior_counts [OF h, of example_rng] h show ?thesis by blast
qed

text \<open>
  C10. For an arm in \<open>[0, K)\<close> and a uniform draw in \<open>[0, 1)\<close>, \<open>pull\<close> returns 0 when the
  arm's probability is 0 and returns 1 when it is 1.
\<close>

theorem pull_boundary_probabilities:
  "rand_ok g \<Longrightarrow> a < length (ctrs env) \<Longrightarrow>
     (ctrs env ! a = 0 \<longrightarrow> map_sum id fst (pull env (int a) g) = Inr 0) \<and>
     (ctrs env ! a = 1 \<longrightarrow> map_sum id fst (pull env (int a) g) = Inr 1)"
  using rand_ok_shd [of g] by (simp add: pull_def rand_def getitem_nat)

theorem pull_boundary_probabilities_witness:
  "rand_ok (const_rng (1 / 2) 0 (1 / 2)) \<and>
   (0::nat) < length (ctrs (AdBandit_init [''A'', ''B''] [0, 1])) \<and>
   ctrs (AdBandit_init [''A'', ''B''] [0, 1]) ! 0 = 0 \<and>
   map_sum id fst (pull (AdBandit_init [''A'', ''B''] [0, 1]) (int 0) (const_rng (1 / 2) 0 (1 / 2))) = Inr 0"
  using pull_boundary_probabilities [of "const_rng (1 / 2) 0 (1 / 2)" 0 "AdBandit_init [''A'', ''B''] [0, 1]"]
  by (simp add: rand_ok_def const_rng_def AdBandit_init_def)

end
